theory Spec2Isabelle
  imports Complex_Main "HOL-Library.AList"
begin

section \<open>The JSON comparator of the stub package (stub/model.go)\<close>

subsection \<open>Decoded JSON values\<close>

text \<open>
  \<^verbatim>\<open>json.Unmarshal\<close> into a \<^verbatim>\<open>map[string]interface{}\<close> produces values of six
  dynamic types: \<^verbatim>\<open>nil\<close>, \<^verbatim>\<open>bool\<close>, \<^verbatim>\<open>float64\<close>, \<^verbatim>\<open>string\<close>,
  \<^verbatim>\<open>[]interface{}\<close> and \<^verbatim>\<open>map[string]interface{}\<close>.

  A decoded number is a finite \<^verbatim>\<open>float64\<close> (the decoder stores no NaN and no infinity);
  on finite doubles Go's \<^verbatim>\<open>==\<close> is equality of the denoted real numbers (it identifies
  \<^verbatim>\<open>0\<close> and \<^verbatim>\<open>-0\<close>), so a number is modelled by the real it denotes.

  A Go map is modelled by the list of its entries in the order in which \<^verbatim>\<open>range\<close>
  visits them. Go leaves that order unspecified, so the order is part of the input here,
  and a statement about all entry lists is a statement about all orders. \<^verbatim>\<open>len\<close> is
  \<open>length\<close>, a lookup \<^verbatim>\<open>m[key]\<close> is \<open>map_of m key\<close>, and a nil map is the empty list
  (in this code a nil map is only measured, ranged over and read, where it behaves as an
  empty one). The keys of a Go map are distinct; nothing below except \<open>reordered\<close>
  depends on that. Go is free to visit one map in different orders in different
  \<^verbatim>\<open>range\<close> statements; the list fixes one order for each map value.
\<close>

datatype json =
    JNull
  | JBool bool
  | JNumber real
  | JString string
  | JArray "json list"
  | JObject "(string \<times> json) list"

type_synonym jmap = "(string \<times> json) list"

text \<open>The run-time panics the comparator can raise.\<close>

datatype go_panic =
    Uncomparable string  \<comment> \<open>runtime error: comparing uncomparable type ...\<close>
  | TypeAssertion        \<comment> \<open>interface conversion: a failed type assertion\<close>

text \<open>\<^verbatim>\<open>fmt.Sprintf("%T", v)\<close> on a decoded value.\<close>

fun typeName :: "json \<Rightarrow> string" where
  "typeName JNull = ''<nil>''"
| "typeName (JBool b) = ''bool''"
| "typeName (JNumber n) = ''float64''"
| "typeName (JString s) = ''string''"
| "typeName (JArray xs) = ''[]interface {}''"
| "typeName (JObject m) = ''map[string]interface {}''"

subsection \<open>jsonStringMatches\<close>

text \<open>
  The function and its three loops. \<open>fieldsLoop\<close> is the \<^verbatim>\<open>for key, value := range jsonMap\<close>
  loop over the entries still to be visited, \<open>itemsLoop\<close> the loop over \<^verbatim>\<open>items\<close>, and
  \<open>searchLoop\<close> the inner loop over \<^verbatim>\<open>otherItems\<close> with the variable \<^verbatim>\<open>found\<close>.
  The result is \<open>Inr b\<close> when the Go function returns \<open>b\<close> and \<open>Inl p\<close> when it panics.

  Three points of the Go text are kept as they are written:
  \<^item> the \<^verbatim>\<open>case "map[string]interface {}"\<close> block has no \<^verbatim>\<open>continue\<close>: after a successful
    recursive call control leaves the \<^verbatim>\<open>switch\<close> and reaches \<^verbatim>\<open>value != otherValue\<close>,
    a comparison of two interface values whose dynamic type is a map, which panics;
  \<^item> the \<^verbatim>\<open>break\<close> statements of the inner \<^verbatim>\<open>switch\<close> leave the \<^verbatim>\<open>switch\<close>, not the
    loop, so the inner loop always visits every element of \<^verbatim>\<open>otherItems\<close>;
  \<^item> the \<^verbatim>\<open>default\<close> case \<^verbatim>\<open>item == otherItem\<close> also receives two slices, which panics.

  \<^verbatim>\<open>jsonMap[key]\<close> inside the loop is the \<^verbatim>\<open>value\<close> the range delivered, and
  \<^verbatim>\<open>otherJsonMap[key]\<close> is \<^verbatim>\<open>otherValue\<close>. The \<^verbatim>\<open>switch\<close> on the type name is a case
  distinction on the constructor; a type assertion on a value of another dynamic type
  panics.
\<close>

fun jsonStringMatches :: "jmap \<Rightarrow> jmap \<Rightarrow> bool \<Rightarrow> go_panic + bool"
  and fieldsLoop :: "jmap \<Rightarrow> jmap \<Rightarrow> bool \<Rightarrow> go_panic + bool"
  and itemsLoop :: "json list \<Rightarrow> json list \<Rightarrow> bool \<Rightarrow> go_panic + bool"
  and searchLoop :: "json \<Rightarrow> json list \<Rightarrow> bool \<Rightarrow> bool \<Rightarrow> go_panic + bool"
where
  "jsonStringMatches jsonMap otherJsonMap mustBeEqual =
     (if mustBeEqual \<and> length jsonMap \<noteq> length otherJsonMap then Inr False
      else fieldsLoop jsonMap otherJsonMap mustBeEqual)"
| "fieldsLoop [] otherJsonMap mustBeEqual = Inr True"
| "fieldsLoop ((key, value) # rest) otherJsonMap mustBeEqual =
     (case map_of otherJsonMap key of
        None \<Rightarrow> Inr False
      | Some otherValue \<Rightarrow>
          if typeName value \<noteq> typeName otherValue then Inr False
          else (case value of
              JObject a \<Rightarrow>
                (case otherValue of
                   JObject b \<Rightarrow>
                     (case jsonStringMatches a b mustBeEqual of
                        Inl p \<Rightarrow> Inl p
                      | Inr matched \<Rightarrow>
                          if \<not> matched then Inr False
                          else Inl (Uncomparable (typeName value)))
                 | _ \<Rightarrow> Inl TypeAssertion)
            | JArray items \<Rightarrow>
                (case otherValue of
                   JArray otherItems \<Rightarrow>
                     if length items \<noteq> length otherItems then Inr False
                     else (case itemsLoop items otherItems mustBeEqual of
                        Inl p \<Rightarrow> Inl p
                      | Inr allFound \<Rightarrow>
                          if \<not> allFound then Inr False
                          else fieldsLoop rest otherJsonMap mustBeEqual)
                 | _ \<Rightarrow> Inl TypeAssertion)
            | _ \<Rightarrow>
                if value \<noteq> otherValue then Inr False
                else fieldsLoop rest otherJsonMap mustBeEqual))"
| "itemsLoop [] otherItems mustBeEqual = Inr True"
| "itemsLoop (item # rest) otherItems mustBeEqual =
     (case searchLoop item otherItems mustBeEqual False of
        Inl p \<Rightarrow> Inl p
      | Inr found \<Rightarrow>
          if \<not> found then Inr False
          else itemsLoop rest otherItems mustBeEqual)"
| "searchLoop item [] mustBeEqual found = Inr found"
| "searchLoop item (otherItem # rest) mustBeEqual found =
     (if typeName item \<noteq> typeName otherItem then searchLoop item rest mustBeEqual found
      else (case item of
          JObject a \<Rightarrow>
            (case otherItem of
               JObject b \<Rightarrow>
                 (case jsonStringMatches a b mustBeEqual of
                    Inl p \<Rightarrow> Inl p
                  | Inr matched \<Rightarrow> searchLoop item rest mustBeEqual (found \<or> matched))
             | _ \<Rightarrow> Inl TypeAssertion)
        | JArray xs \<Rightarrow> Inl (Uncomparable (typeName item))
        | _ \<Rightarrow> searchLoop item rest mustBeEqual (found \<or> item = otherItem)))"

subsection \<open>The JsonString methods\<close>

text \<open>
  \<^verbatim>\<open>encoding/json\<close> is a library, not code of this package, so its two entry points
  are parameters of the model. A \<open>decoder\<close> stands for
  \<^verbatim>\<open>json.Unmarshal(data, ptr)\<close> with \<^verbatim>\<open>ptr\<close> pointing to a fresh nil map: it yields the
  error returned and the map found behind the pointer afterwards. A \<open>compactor\<close>
  stands for \<^verbatim>\<open>json.Compact(buffer, data)\<close> on a fresh buffer: it yields the error
  returned and the buffer's contents afterwards.
\<close>

datatype json_error = SyntaxError | UnmarshalTypeError

type_synonym decoder = "string \<Rightarrow> json_error option \<times> jmap"

type_synonym compactor = "string \<Rightarrow> json_error option \<times> string"

text \<open>
  \<^verbatim>\<open>UnmarshalJSON\<close> returns the new value of the receiver, the lines written to the
  error log, and the error it returns.
\<close>

definition UnmarshalJSON :: "compactor \<Rightarrow> string \<Rightarrow> string \<times> string list \<times> json_error option" where
  "UnmarshalJSON jsonCompact data =
     (let (err, buffer) = jsonCompact data;
          logged = (case err of None \<Rightarrow> [] | Some e \<Rightarrow> [''error compacting json: '' @ data])
      in (buffer, logged, None))"

text \<open>\<^verbatim>\<open>MarshalJSON\<close> returns the bytes and the error.\<close>

definition MarshalJSON :: "string \<Rightarrow> string \<times> json_error option" where
  "MarshalJSON j = (let val = j in if val = [] then (''{}'', None) else (val, None))"

text \<open>
  \<^verbatim>\<open>Matches\<close> and \<^verbatim>\<open>Equals\<close> call the decoder on both texts, drop the errors it
  returns, and pass the two maps to the comparator.
\<close>

definition Matches :: "decoder \<Rightarrow> string \<Rightarrow> string \<Rightarrow> go_panic + bool" where
  "Matches jsonUnmarshal j other =
     (let jsonMap = snd (jsonUnmarshal j);
          otherJsonMap = snd (jsonUnmarshal other)
      in jsonStringMatches jsonMap otherJsonMap False)"

definition Equals :: "decoder \<Rightarrow> string \<Rightarrow> string \<Rightarrow> go_panic + bool" where
  "Equals jsonUnmarshal j other =
     (let jsonMap = snd (jsonUnmarshal j);
          otherJsonMap = snd (jsonUnmarshal other)
      in jsonStringMatches jsonMap otherJsonMap True)"

subsection \<open>The same value in another visiting order\<close>

text \<open>
  \<open>reordered v w\<close> holds when \<open>v\<close> and \<open>w\<close> are the same decoded value and differ
  at most in the order in which the entries of their maps, at any depth, are listed. Arrays
  keep their order. It serves to state that a result does not depend on the order chosen
  by \<^verbatim>\<open>range\<close>.
\<close>

fun reordered :: "json \<Rightarrow> json \<Rightarrow> bool" where
  "reordered (JArray xs) w =
     (case w of JArray ys \<Rightarrow> list_all2 reordered xs ys | _ \<Rightarrow> False)"
| "reordered (JObject a) w =
     (case w of
        JObject b \<Rightarrow>
          distinct (map fst a) \<and> distinct (map fst b) \<and> length a = length b \<and>
          (\<forall>(k, v) \<in> set a. case map_of b k of None \<Rightarrow> False | Some v' \<Rightarrow> reordered v v')
      | _ \<Rightarrow> False)"
| "reordered v w = (v = w)"

section \<open>Auxiliary facts\<close>

lemma fieldsLoop_append:
  "fieldsLoop (pre @ post) t m =
     (if fieldsLoop pre t m = Inr True then fieldsLoop post t m else fieldsLoop pre t m)"
proof (induction pre)
  case Nil
  show ?case by simp
next
  case (Cons kv pre)
  obtain key v where kv: "kv = (key, v)" by (cases kv)
  show ?case unfolding kv using Cons.IH
    by (simp split: option.splits json.splits sum.splits)
qed

lemma fieldsLoop_cong_keys:
  "(\<And>key. key \<in> fst ` set p \<Longrightarrow> map_of t' key = map_of t key) \<Longrightarrow>
     fieldsLoop p t' m = fieldsLoop p t m"
proof (induction p)
  case Nil
  show ?case by simp
next
  case (Cons kv p)
  obtain key v where kv: "kv = (key, v)" by (cases kv)
  have h: "map_of t' key = map_of t key" using Cons.prems kv by simp
  have r: "fieldsLoop p t' m = fieldsLoop p t m" using Cons by simp
  show ?case unfolding kv by (simp add: h r split: option.splits json.splits sum.splits)
qed

lemma length_update_present:
  "k \<in> fst ` set al \<Longrightarrow> length (AList.update k v al) = length al"
  by (induction al) auto

lemma length_update_absent:
  "k \<notin> fst ` set al \<Longrightarrow> length (AList.update k v al) = Suc (length al)"
  by (induction al) auto

lemma fieldsLoop_object_entry:
  assumes "map_of t k = Some (JObject b)" and "jsonStringMatches a b m = Inr True"
  shows "fieldsLoop ((k, JObject a) # post) t m = Inl (Uncomparable ''map[string]interface {}'')"
  using assms by simp

lemma fieldsLoop_empty_target: "fieldsLoop p [] m = Inr (p = [])"
  by (cases p) auto

lemma fieldsLoop_Cons:
  "fieldsLoop (kv # p) t m =
     (if fieldsLoop [kv] t m = Inr True then fieldsLoop p t m else fieldsLoop [kv] t m)"
  using fieldsLoop_append [of "[kv]" p t m] by simp

lemma fieldsLoop_array_grown:
  assumes "fieldsLoop p t m = Inr True" and "k \<in> fst ` set p"
    and "map_of t k = Some (JArray ys)"
    and "map_of t' = (map_of t)(k \<mapsto> JArray zs)" and "length zs \<noteq> length ys"
  shows "fieldsLoop p t' m = Inr False"
  using assms(1,2)
proof (induction p)
  case Nil
  then show ?case by simp
next
  case (Cons kv p)
  obtain key v where kv: "kv = (key, v)" by (cases kv)
  show ?case
  proof (cases "key = k")
    case True
    from Cons.prems(1) assms(3) obtain xs where v: "v = JArray xs" and len: "length xs = length ys"
      unfolding kv True
      by (cases v) (auto split: if_splits sum.splits)
    show ?thesis unfolding kv True v using assms(4,5) len by simp
  next
    case False
    from Cons.prems(1) have hd: "fieldsLoop [kv] t m = Inr True" and tl: "fieldsLoop p t m = Inr True"
      by (simp_all add: fieldsLoop_Cons [of kv p t m] split: if_splits)
    have "map_of t' key = map_of t key" using False assms(4) by simp
    then have "fieldsLoop [kv] t' m = fieldsLoop [kv] t m"
      unfolding kv by (intro fieldsLoop_cong_keys) simp
    with hd have hd': "fieldsLoop [kv] t' m = Inr True" by simp
    from False Cons.prems(2) have "k \<in> fst ` set p" unfolding kv by auto
    with Cons.IH tl have "fieldsLoop p t' m = Inr False" by simp
    with hd' show ?thesis by (simp add: fieldsLoop_Cons [of kv p t' m])
  qed
qed

lemma typeName_JObject_eq: "typeName (JObject a) = typeName v \<longleftrightarrow> (\<exists>b. v = JObject b)"
  by (cases v) simp_all

lemma searchLoop_scalar_no_panic:
  "\<forall>a. item \<noteq> JObject a \<Longrightarrow> \<forall>xs. item \<noteq> JArray xs \<Longrightarrow>
     \<not> isl (searchLoop item others m found)"
proof (induction others arbitrary: found)
  case Nil
  show ?case by simp
next
  case (Cons other others)
  from Cons.prems show ?case
    using Cons.IH [OF Cons.prems] by (cases item) simp_all
qed

lemma searchLoop_object_no_panic:
  "(\<And>t' m'. \<not> isl (jsonStringMatches a t' m')) \<Longrightarrow>
     \<not> isl (searchLoop (JObject a) others m found)"
proof (induction others arbitrary: found)
  case Nil
  show ?case by simp
next
  case (Cons other others)
  show ?case
  proof (cases "\<exists>b. other = JObject b")
    case True
    then obtain b where o: "other = JObject b" ..
    from Cons.prems [of b m] obtain r where r: "jsonStringMatches a b m = Inr r"
      by (cases "jsonStringMatches a b m") (simp_all del: jsonStringMatches.simps)
    show ?thesis unfolding o using Cons.IH [OF Cons.prems] by (simp add: r del: jsonStringMatches.simps)
  next
    case False
    then have "typeName (JObject a) \<noteq> typeName other"
      by (simp only: typeName_JObject_eq) simp
    then show ?thesis using Cons.IH [OF Cons.prems] by (simp del: jsonStringMatches.simps)
  qed
qed

lemma true_never_panics:
  "jsonStringMatches p t m = Inr True \<Longrightarrow> \<not> isl (jsonStringMatches p t' m')"
  "fieldsLoop p t m = Inr True \<Longrightarrow> \<not> isl (fieldsLoop p t' m')"
  "itemsLoop items others m = Inr True \<Longrightarrow> \<not> isl (itemsLoop items others' m')"
  "searchLoop item others m found = Inr True \<Longrightarrow> \<not> found \<Longrightarrow>
     \<not> isl (searchLoop item others' m' found')"
proof (induction p t m and p t m and items others m and item others m found
    arbitrary: t' m' and t' m' and others' m' and others' m' found'
    rule: jsonStringMatches_fieldsLoop_itemsLoop_searchLoop.induct)
  case (1 jsonMap otherJsonMap mustBeEqual)
  from "1.prems" have "fieldsLoop jsonMap otherJsonMap mustBeEqual = Inr True"
    by (simp split: if_splits)
  with "1.IH" have "\<not> isl (fieldsLoop jsonMap t' m')"
    using "1.prems" by (auto split: if_splits)
  then show ?case by simp
next
  case (2 otherJsonMap mustBeEqual)
  show ?case by simp
next
  case (3 key "value" rest otherJsonMap mustBeEqual)
  from "3.prems" obtain ov where ov: "map_of otherJsonMap key = Some ov"
    and ty: "\<not> typeName value \<noteq> typeName ov"
    by (auto split: option.splits if_splits)
  from "3.prems" ov ty have notobj: "\<forall>a. value \<noteq> JObject a"
    by (auto split: json.splits sum.splits if_splits)
  have rest: "\<not> isl (fieldsLoop rest t' m')"
  proof (cases "\<exists>xs. value = JArray xs")
    case True
    then obtain xs where xs: "value = JArray xs" ..
    with ty obtain ys where ys: "ov = JArray ys" by (cases ov) simp_all
    from "3.prems" ov xs ys have len: "\<not> length xs \<noteq> length ys"
      and il: "itemsLoop xs ys mustBeEqual = Inr True"
      and fl: "fieldsLoop rest otherJsonMap mustBeEqual = Inr True"
      by (auto split: sum.splits if_splits)
    from "3.IH"(6) [OF ov ty xs ys len il _ fl] show ?thesis by simp
  next
    case False
    with notobj "3.prems" ov ty have eq: "\<not> value \<noteq> ov"
      and fl: "fieldsLoop rest otherJsonMap mustBeEqual = Inr True"
      by (cases "value"; auto split: if_splits)+
    from False notobj show ?thesis
      using "3.IH"(1-4) [OF ov ty _ eq fl] by (cases "value") auto
  qed
  have items: "\<And>xs ys'. value = JArray xs \<Longrightarrow> \<not> isl (itemsLoop xs ys' m')"
  proof -
    fix xs ys' assume xs: "value = JArray xs"
    with ty obtain ys where ys: "ov = JArray ys" by (cases ov) simp_all
    from "3.prems" ov xs ys have len: "\<not> length xs \<noteq> length ys"
      and il: "itemsLoop xs ys mustBeEqual = Inr True"
      by (auto split: sum.splits if_splits)
    from "3.IH"(5) [OF ov ty xs ys len il] show "\<not> isl (itemsLoop xs ys' m')" .
  qed
  show ?case
  proof (cases "map_of t' key")
    case None
    then show ?thesis by simp
  next
    case (Some ov')
    show ?thesis
    proof (cases "value")
      case (JArray xs)
      show ?thesis
      proof (cases ov')
        case (JArray ys')
        from items [OF \<open>value = JArray xs\<close>, of ys']
        obtain b where "itemsLoop xs ys' m' = Inr b"
          by (cases "itemsLoop xs ys' m'") simp_all
        then show ?thesis using Some \<open>value = JArray xs\<close> JArray rest by simp
      qed (use Some JArray in simp_all)
    next
      case (JObject a)
      with notobj show ?thesis by simp
    qed (use Some rest in auto)
  qed
next
  case (4 otherItems mustBeEqual)
  show ?case by simp
next
  case (5 item rest otherItems mustBeEqual)
  from "5.prems" have s: "searchLoop item otherItems mustBeEqual False = Inr True"
    and r: "itemsLoop rest otherItems mustBeEqual = Inr True"
    by (auto split: sum.splits if_splits)
  from "5.IH"(1) [OF s] have a: "\<And>f. \<not> isl (searchLoop item others' m' f)" by simp
  from "5.IH"(2) [OF s _ r] have b: "\<not> isl (itemsLoop rest others' m')" by simp
  from a [of False] b show ?case by (auto split: sum.splits)
next
  case (6 item mustBeEqual found)
  then show ?case by simp
next
  case (7 item otherItem rest mustBeEqual found)
  show ?case
  proof (cases "typeName item \<noteq> typeName otherItem")
    case True
    with "7.prems" have "searchLoop item rest mustBeEqual found = Inr True" by simp
    from "7.IH"(1) [OF True this "7.prems"(2)] show ?thesis .
  next
    case same: False
    show ?thesis
    proof (cases "(\<forall>a. item \<noteq> JObject a) \<and> (\<forall>xs. item \<noteq> JArray xs)")
      case True
      then show ?thesis by (simp add: searchLoop_scalar_no_panic)
    next
      case False
      then consider xs where "item = JArray xs" | a where "item = JObject a" by auto
      then show ?thesis
      proof cases
        case 1
        with same "7.prems" show ?thesis by simp
      next
        case 2
        with same obtain b where b: "otherItem = JObject b" by (cases otherItem) simp_all
        from "7.prems"(1) 2 b obtain matched
          where r: "jsonStringMatches a b mustBeEqual = Inr matched"
            and s: "searchLoop item rest mustBeEqual (found \<or> matched) = Inr True"
          by (auto simp del: jsonStringMatches.simps split: sum.splits)
        show ?thesis
        proof (cases matched)
          case True
          with r have "jsonStringMatches a b mustBeEqual = Inr True" by simp
          from "7.IH"(6) [OF same 2 b this]
          have "\<And>t' m'. \<not> isl (jsonStringMatches a t' m')" .
          then show ?thesis unfolding 2 by (rule searchLoop_object_no_panic)
        next
          case False
          with "7.prems"(2) have nf: "\<not> (found \<or> matched)" by simp
          from "7.IH"(7) [OF same 2 b r s nf] show ?thesis .
        qed
      qed
    qed
  qed
qed

lemma strict_true_subset_true:
  "m \<Longrightarrow> jsonStringMatches p t m = Inr True \<Longrightarrow> jsonStringMatches p t False = Inr True"
  "m \<Longrightarrow> fieldsLoop p t m = Inr True \<Longrightarrow> fieldsLoop p t False = Inr True"
  "m \<Longrightarrow> itemsLoop items others m = Inr True \<Longrightarrow> itemsLoop items others False = Inr True"
  "m \<Longrightarrow> searchLoop item others m found = Inr b \<Longrightarrow>
     \<forall>others' m' found'. \<not> isl (searchLoop item others' m' found') \<Longrightarrow>
     found \<longrightarrow> found' \<Longrightarrow>
     \<exists>b'. searchLoop item others False found' = Inr b' \<and> (b \<longrightarrow> b')"
proof (induction p t m and p t m and items others m and item others m found
    arbitrary: and and and b found'
    rule: jsonStringMatches_fieldsLoop_itemsLoop_searchLoop.induct)
  case (1 jsonMap otherJsonMap mustBeEqual)
  from "1.prems" have g: "\<not> (mustBeEqual \<and> length jsonMap \<noteq> length otherJsonMap)"
    and "fieldsLoop jsonMap otherJsonMap mustBeEqual = Inr True"
    by (simp_all split: if_splits)
  with "1.IH" [OF g "1.prems"(1)] show ?case by simp
next
  case (2 otherJsonMap mustBeEqual)
  show ?case by simp
next
  case (3 key "value" rest otherJsonMap mustBeEqual)
  note m = "3.prems"(1)
  from "3.prems"(2) obtain ov where ov: "map_of otherJsonMap key = Some ov"
    and ty: "\<not> typeName value \<noteq> typeName ov"
    by (auto split: option.splits if_splits)
  from "3.prems"(2) ov ty have notobj: "\<forall>a. value \<noteq> JObject a"
    by (auto split: json.splits sum.splits if_splits)
  show ?case
  proof (cases "\<exists>xs. value = JArray xs")
    case True
    then obtain xs where xs: "value = JArray xs" ..
    with ty obtain ys where ys: "ov = JArray ys" by (cases ov) simp_all
    from "3.prems"(2) ov xs ys have len: "\<not> length xs \<noteq> length ys"
      and il: "itemsLoop xs ys mustBeEqual = Inr True"
      and fl: "fieldsLoop rest otherJsonMap mustBeEqual = Inr True"
      by (auto split: sum.splits if_splits)
    from "3.IH"(5) [OF ov ty xs ys len m il]
    have il': "itemsLoop xs ys False = Inr True" .
    from "3.IH"(6) [OF ov ty xs ys len il _ m fl]
    have fl': "fieldsLoop rest otherJsonMap False = Inr True" by simp
    from ov xs ys len il' fl' show ?thesis by simp
  next
    case False
    with notobj "3.prems"(2) ov ty have eq: "\<not> value \<noteq> ov"
      and fl: "fieldsLoop rest otherJsonMap mustBeEqual = Inr True"
      by (cases "value"; auto split: if_splits)+
    from False notobj have "fieldsLoop rest otherJsonMap False = Inr True"
      using "3.IH"(1-4) [OF ov ty _ eq m fl] by (cases "value") auto
    with False notobj ov eq show ?thesis by (cases "value") auto
  qed
next
  case (4 otherItems mustBeEqual)
  show ?case by simp
next
  case (5 item rest otherItems mustBeEqual)
  note m = "5.prems"(1)
  from "5.prems"(2) have s: "searchLoop item otherItems mustBeEqual False = Inr True"
    and r: "itemsLoop rest otherItems mustBeEqual = Inr True"
    by (auto split: sum.splits if_splits)
  from true_never_panics(4) [OF s]
  have np: "\<forall>others' m' found'. \<not> isl (searchLoop item others' m' found')" by simp
  from "5.IH"(1) [OF m s np, of False]
  have s': "searchLoop item otherItems False False = Inr True" by auto
  from "5.IH"(2) [OF s _ m r] have r': "itemsLoop rest otherItems False = Inr True" by simp
  from s' r' show ?case by simp
next
  case (6 item mustBeEqual found)
  then show ?case by auto
next
  case (7 item otherItem rest mustBeEqual found)
  note m = "7.prems"(1) and np = "7.prems"(3) and ff = "7.prems"(4)
  show ?case
  proof (cases "typeName item \<noteq> typeName otherItem")
    case True
    with "7.prems"(2) have "searchLoop item rest mustBeEqual found = Inr b" by simp
    from "7.IH"(1) [OF True m this np ff] True show ?thesis by simp
  next
    case same: False
    show ?thesis
    proof (cases "(\<forall>a. item \<noteq> JObject a) \<and> (\<forall>xs. item \<noteq> JArray xs)")
      case True
      with same "7.prems"(2)
      have s: "searchLoop item rest mustBeEqual (found \<or> item = otherItem) = Inr b"
        by (cases item) auto
      from ff have ff': "(found \<or> item = otherItem) \<longrightarrow> (found' \<or> item = otherItem)" by simp
      from True have
        "\<exists>b'. searchLoop item rest False (found' \<or> item = otherItem) = Inr b' \<and> (b \<longrightarrow> b')"
        using "7.IH"(2-5) [OF same _ m s np ff'] by (cases item) auto
      with True same show ?thesis by (cases item) auto
    next
      case False
      then consider xs where "item = JArray xs" | a where "item = JObject a" by auto
      then show ?thesis
      proof cases
        case 1
        with same "7.prems"(2) show ?thesis by simp
      next
        case 2
        with same obtain c where c: "otherItem = JObject c" by (cases otherItem) simp_all
        from "7.prems"(2) 2 c obtain ms
          where r: "jsonStringMatches a c mustBeEqual = Inr ms"
            and s: "searchLoop item rest mustBeEqual (found \<or> ms) = Inr b"
          by (auto simp del: jsonStringMatches.simps split: sum.splits)
        from np have "\<not> isl (searchLoop item [otherItem] False found')" by blast
        then obtain ml where r': "jsonStringMatches a c False = Inr ml"
          unfolding 2 c
          by (cases "jsonStringMatches a c False") (simp_all del: jsonStringMatches.simps)
        have "ms \<longrightarrow> ml"
          using "7.IH"(6) [OF same 2 c m] r r' by auto
        with ff have ff': "(found \<or> ms) \<longrightarrow> (found' \<or> ml)" by simp
        from "7.IH"(7) [OF same 2 c r m s np ff']
        obtain b' where "searchLoop item rest False (found' \<or> ml) = Inr b'" and "b \<longrightarrow> b'"
          by blast
        then show ?thesis unfolding 2 c using r' 2
          by (simp del: jsonStringMatches.simps)
      qed
    qed
  qed
qed

lemma reordered_scalar:
  "\<forall>a. v \<noteq> JObject a \<Longrightarrow> \<forall>xs. v \<noteq> JArray xs \<Longrightarrow> reordered v w \<longleftrightarrow> v = w"
  by (cases v) simp_all

lemma reordered_JArray:
  "reordered (JArray xs) w \<Longrightarrow> \<exists>ys. w = JArray ys \<and> list_all2 reordered xs ys"
  by (cases w) simp_all

lemma reordered_entry:
  assumes "reordered (JObject a) (JObject b)" and "(k, v) \<in> set a"
  shows "\<exists>v'. map_of b k = Some v' \<and> reordered v v'"
proof -
  from assms(1) have "distinct (map fst a) \<and> distinct (map fst b) \<and> length a = length b \<and>
      (\<forall>(k, v) \<in> set a. case map_of b k of None \<Rightarrow> False | Some v' \<Rightarrow> reordered v v')"
    unfolding reordered.simps json.case .
  then have "\<forall>(k, v) \<in> set a. case map_of b k of None \<Rightarrow> False | Some v' \<Rightarrow> reordered v v'"
    by blast
  with assms(2) have "case map_of b k of None \<Rightarrow> False | Some v' \<Rightarrow> reordered v v'"
    by blast
  then show ?thesis by (cases "map_of b k") simp_all
qed

lemma reordered_lookup:
  assumes "reordered (JObject a) (JObject b)" and "map_of a k = Some v"
  shows "\<exists>v'. map_of b k = Some v' \<and> reordered v v'"
  using assms(1) map_of_SomeD [OF assms(2)] by (rule reordered_entry)

lemma reordered_keys:
  assumes "reordered (JObject a) (JObject b)"
  shows "fst ` set a = fst ` set b"
proof -
  from assms have da: "distinct (map fst a)" and db: "distinct (map fst b)"
    and len: "length a = length b" by simp_all
  have sub: "fst ` set a \<subseteq> fst ` set b"
  proof
    fix k assume "k \<in> fst ` set a"
    then obtain v where "(k, v) \<in> set a" by auto
    from reordered_entry [OF assms this] obtain v' where "map_of b k = Some v'" by blast
    then have "(k, v') \<in> set b" by (rule map_of_SomeD)
    then show "k \<in> fst ` set b" by force
  qed
  have "card (fst ` set a) = length a" using da by (metis distinct_card length_map set_map)
  moreover have "card (fst ` set b) = length b" using db by (metis distinct_card length_map set_map)
  ultimately have "card (fst ` set a) = card (fst ` set b)" using len by simp
  with sub show ?thesis by (simp add: card_subset_eq)
qed

lemma reordered_entry_back:
  assumes "reordered (JObject a) (JObject b)" and "(k, v') \<in> set b"
  shows "\<exists>v. (k, v) \<in> set a \<and> reordered v v'"
proof -
  from assms(2) have "k \<in> fst ` set b" by force
  then have "k \<in> fst ` set a" by (simp only: reordered_keys [OF assms(1)])
  then obtain v where v: "(k, v) \<in> set a" by auto
  from reordered_entry [OF assms(1) v]
  obtain v'' where l: "map_of b k = Some v''" and r: "reordered v v''" by blast
  from assms(1) have "distinct (map fst b)" by simp
  with assms(2) have "map_of b k = Some v'" by simp
  with l r v show ?thesis by auto
qed

lemma fieldsLoop_all:
  "fieldsLoop p t m = Inr True \<longleftrightarrow> (\<forall>kv \<in> set p. fieldsLoop [kv] t m = Inr True)"
proof (induction p)
  case Nil
  show ?case by simp
next
  case (Cons kv p)
  show ?case using Cons.IH by (simp add: fieldsLoop_Cons [of kv p t m])
qed

lemma searchLoop_Cons:
  "searchLoop item [other] m False = Inr h \<Longrightarrow>
     searchLoop item (other # rest) m found = searchLoop item rest m (found \<or> h)"
  by (auto simp del: jsonStringMatches.simps split: if_splits json.splits sum.splits)

lemma searchLoop_value:
  assumes "\<forall>others m found. \<not> isl (searchLoop item others m found)"
  shows "searchLoop item others m found =
           Inr (found \<or> (\<exists>other \<in> set others. searchLoop item [other] m False = Inr True))"
proof (induction others arbitrary: found)
  case Nil
  show ?case by simp
next
  case (Cons other others)
  from assms obtain h where h: "searchLoop item [other] m False = Inr h"
    by (metis sum.collapse(2))
  show ?case
    by (simp only: searchLoop_Cons [OF h] Cons.IH) (use h in auto)
qed

lemma reordered_JObject:
  "reordered (JObject a) w \<Longrightarrow> \<exists>b. w = JObject b"
  by (cases w) simp_all

lemma true_reordered:
  "jsonStringMatches p t m = Inr True \<Longrightarrow>
     reordered (JObject p) (JObject p') \<Longrightarrow> reordered (JObject t) (JObject t') \<Longrightarrow>
     jsonStringMatches p' t' m = Inr True"
  "fieldsLoop p t m = Inr True \<Longrightarrow> (k, v) \<in> set p \<Longrightarrow>
     reordered v v' \<Longrightarrow> reordered (JObject t) (JObject t') \<Longrightarrow>
     fieldsLoop [(k, v')] t' m = Inr True"
  "itemsLoop items others m = Inr True \<Longrightarrow>
     list_all2 reordered items items' \<Longrightarrow> list_all2 reordered others others' \<Longrightarrow>
     itemsLoop items' others' m = Inr True"
  "searchLoop item others m found = Inr True \<Longrightarrow> \<not> found \<Longrightarrow>
     reordered item item' \<Longrightarrow> list_all2 reordered others others' \<Longrightarrow>
     \<exists>other' \<in> set others'. searchLoop item' [other'] m False = Inr True"
proof (induction p t m and p t m and items others m and item others m found
    arbitrary: p' t' and k v v' t' and items' others' and item' others'
    rule: jsonStringMatches_fieldsLoop_itemsLoop_searchLoop.induct)
  case (1 jsonMap otherJsonMap mustBeEqual)
  from "1.prems"(1) have g: "\<not> (mustBeEqual \<and> length jsonMap \<noteq> length otherJsonMap)"
    and fl: "fieldsLoop jsonMap otherJsonMap mustBeEqual = Inr True"
    by (simp_all split: if_splits)
  from "1.prems"(2,3) have len: "length p' = length jsonMap" "length t' = length otherJsonMap"
    by simp_all
  have "fieldsLoop [kv'] t' mustBeEqual = Inr True" if "kv' \<in> set p'" for kv'
  proof -
    obtain k v' where kv': "kv' = (k, v')" by (cases kv')
    with that have "(k, v') \<in> set p'" by simp
    from reordered_entry_back [OF "1.prems"(2) this]
    obtain v where "(k, v) \<in> set jsonMap" and "reordered v v'" by blast
    from "1.IH" [OF g fl this "1.prems"(3)] show ?thesis unfolding kv' .
  qed
  then have "fieldsLoop p' t' mustBeEqual = Inr True"
    by (simp only: fieldsLoop_all [of p']) blast
  with g len show ?case by simp
next
  case (2 otherJsonMap mustBeEqual)
  then show ?case by simp
next
  case (3 key "value" rest otherJsonMap mustBeEqual)
  note ro = "3.prems"(3) and rt = "3.prems"(4)
  from "3.prems"(1) obtain ov where ov: "map_of otherJsonMap key = Some ov"
    and ty: "\<not> typeName value \<noteq> typeName ov"
    by (auto split: option.splits if_splits)
  from "3.prems"(1) ov ty have notobj: "\<forall>a. value \<noteq> JObject a"
    by (auto split: json.splits sum.splits if_splits)
  from reordered_lookup [OF rt ov]
  obtain ov' where ov': "map_of t' key = Some ov'" and rov: "reordered ov ov'" by blast
  show ?case
  proof (cases "\<exists>xs. value = JArray xs")
    case True
    then obtain xs where xs: "value = JArray xs" ..
    with ty obtain ys where ys: "ov = JArray ys" by (cases ov) simp_all
    from "3.prems"(1) ov xs ys have len: "\<not> length xs \<noteq> length ys"
      and il: "itemsLoop xs ys mustBeEqual = Inr True"
      and fl: "fieldsLoop rest otherJsonMap mustBeEqual = Inr True"
      by (auto split: sum.splits if_splits)
    show ?thesis
    proof (cases "(k, v) \<in> set rest")
      case True
      from "3.IH"(6) [OF ov ty xs ys len il _ fl True ro rt] show ?thesis by simp
    next
      case False
      with "3.prems"(2) have k: "k = key" and v: "v = value" by simp_all
      from ro v xs obtain xs' where xs': "v' = JArray xs'" and rx: "list_all2 reordered xs xs'"
        using reordered_JArray by blast
      from rov ys obtain ys' where ys': "ov' = JArray ys'" and ry: "list_all2 reordered ys ys'"
        using reordered_JArray by blast
      from "3.IH"(5) [OF ov ty xs ys len il rx ry]
      have il': "itemsLoop xs' ys' mustBeEqual = Inr True" .
      from rx ry len have "length xs' = length ys'"
        by (simp add: list_all2_lengthD [symmetric])
      with il' ov' show ?thesis unfolding k xs' ys' by simp
    qed
  next
    case False
    with notobj "3.prems"(1) ov ty have eq: "\<not> value \<noteq> ov"
      and fl: "fieldsLoop rest otherJsonMap mustBeEqual = Inr True"
      by (cases "value"; auto split: if_splits)+
    show ?thesis
    proof (cases "(k, v) \<in> set rest")
      case True
      from False notobj show ?thesis
        using "3.IH"(1-4) [OF ov ty _ eq fl True ro rt] by (cases "value") auto
    next
      case nin: False
      with "3.prems"(2) have k: "k = key" and v: "v = value" by simp_all
      from False notobj ro v have v': "v' = value" by (simp add: reordered_scalar)
      from False notobj rov eq have "ov' = value" by (simp add: reordered_scalar)
      with False notobj ov' show ?thesis unfolding k v' by (cases "value") auto
    qed
  qed
next
  case (4 otherItems mustBeEqual)
  then show ?case by simp
next
  case (5 item rest otherItems mustBeEqual)
  from "5.prems"(1) have s: "searchLoop item otherItems mustBeEqual False = Inr True"
    and r: "itemsLoop rest otherItems mustBeEqual = Inr True"
    by (auto split: sum.splits if_splits)
  from "5.prems"(2) obtain item' rest' where i': "items' = item' # rest'"
    and ri: "reordered item item'" and rr: "list_all2 reordered rest rest'"
    by (auto simp: list_all2_Cons1)
  from "5.IH"(1) [OF s _ ri "5.prems"(3)]
  obtain other' where o': "other' \<in> set others'"
    and hit: "searchLoop item' [other'] mustBeEqual False = Inr True" by auto
  from true_never_panics(4) [OF hit]
  have np: "\<forall>others m found. \<not> isl (searchLoop item' others m found)" by simp
  from o' hit
  have e: "(\<exists>other \<in> set others'. searchLoop item' [other] mustBeEqual False = Inr True) = True"
    by blast
  have s': "searchLoop item' others' mustBeEqual False = Inr True"
    by (simp only: searchLoop_value [OF np, of others' mustBeEqual False] e simp_thms)
  from "5.IH"(2) [OF s _ r rr "5.prems"(3)]
  have "itemsLoop rest' others' mustBeEqual = Inr True" by simp
  with s' show ?case unfolding i' by simp
next
  case (6 item mustBeEqual found)
  then show ?case by simp
next
  case (7 item otherItem rest mustBeEqual found)
  note nf = "7.prems"(2) and ri = "7.prems"(3)
  from "7.prems"(4) obtain other' rest' where o': "others' = other' # rest'"
    and ro: "reordered otherItem other'" and rr: "list_all2 reordered rest rest'"
    by (auto simp: list_all2_Cons1)
  have tail: "\<exists>other' \<in> set others'. searchLoop item' [other'] mustBeEqual False = Inr True"
    if "\<exists>other' \<in> set rest'. searchLoop item' [other'] mustBeEqual False = Inr True"
    using that unfolding o' by auto
  show ?case
  proof (cases "typeName item \<noteq> typeName otherItem")
    case True
    with "7.prems"(1) have "searchLoop item rest mustBeEqual found = Inr True" by simp
    from "7.IH"(1) [OF True this nf ri rr] show ?thesis by (rule tail)
  next
    case same: False
    show ?thesis
    proof (cases "(\<forall>a. item \<noteq> JObject a) \<and> (\<forall>xs. item \<noteq> JArray xs)")
      case True
      with same "7.prems"(1)
      have s: "searchLoop item rest mustBeEqual (found \<or> item = otherItem) = Inr True"
        by (cases item) auto
      show ?thesis
      proof (cases "item = otherItem")
        case eq: True
        from True ri have i': "item' = item" by (simp add: reordered_scalar)
        from True ro eq have "other' = item" by (simp add: reordered_scalar)
        with True have "searchLoop item [other'] mustBeEqual False = Inr True"
          by (cases item) auto
        then show ?thesis unfolding o' i' by auto
      next
        case False
        with nf have nf': "\<not> (found \<or> item = otherItem)" by simp
        from True have
          "\<exists>other' \<in> set rest'. searchLoop item' [other'] mustBeEqual False = Inr True"
          using "7.IH"(2-5) [OF same _ s nf' ri rr] by (cases item) auto
        then show ?thesis by (rule tail)
      qed
    next
      case False
      then consider xs where "item = JArray xs" | a where "item = JObject a" by auto
      then show ?thesis
      proof cases
        case 1
        with same "7.prems"(1) show ?thesis by simp
      next
        case 2
        with same obtain c where c: "otherItem = JObject c" by (cases otherItem) simp_all
        from "7.prems"(1) 2 c obtain ms
          where r: "jsonStringMatches a c mustBeEqual = Inr ms"
            and s: "searchLoop item rest mustBeEqual (found \<or> ms) = Inr True"
          by (auto simp del: jsonStringMatches.simps split: sum.splits)
        show ?thesis
        proof (cases ms)
          case True
          from ri 2 obtain a' where a': "item' = JObject a'"
            using reordered_JObject by blast
          from ro c obtain c' where c': "other' = JObject c'"
            using reordered_JObject by blast
          from True r have "jsonStringMatches a c mustBeEqual = Inr True" by simp
          from "7.IH"(6) [OF same 2 c this] ri ro
          have "jsonStringMatches a' c' mustBeEqual = Inr True"
            unfolding 2 c a' c' by blast
          then have "searchLoop item' [other'] mustBeEqual False = Inr True"
            unfolding a' c' by (simp del: jsonStringMatches.simps)
          then show ?thesis unfolding o' by auto
        next
          case False
          with nf have nf': "\<not> (found \<or> ms)" by simp
          from "7.IH"(7) [OF same 2 c r s nf' ri rr] show ?thesis by (rule tail)
        qed
      qed
    qed
  qed
qed

lemma searchLoop_scalar_step:
  "\<forall>a. item \<noteq> JObject a \<Longrightarrow> \<forall>xs. item \<noteq> JArray xs \<Longrightarrow>
     searchLoop item (other # others) m found = searchLoop item others m (found \<or> item = other)"
  by (cases item; cases other) auto

lemma searchLoop_scalar_value:
  "\<forall>a. item \<noteq> JObject a \<Longrightarrow> \<forall>xs. item \<noteq> JArray xs \<Longrightarrow>
     searchLoop item others m found = Inr (found \<or> item \<in> set others)"
proof (induction others arbitrary: found)
  case Nil
  show ?case by simp
next
  case (Cons other others)
  have "searchLoop item (other # others) m found
      = searchLoop item others m (found \<or> item = other)"
    using Cons.prems by (rule searchLoop_scalar_step)
  also have "\<dots> = Inr ((found \<or> item = other) \<or> item \<in> set others)"
    using Cons.prems by (rule Cons.IH)
  also have "((found \<or> item = other) \<or> item \<in> set others) = (found \<or> item \<in> set (other # others))"
    by auto
  finally show ?case .
qed

lemma itemsLoop_all:
  "itemsLoop items others m = Inr True \<longleftrightarrow>
     (\<forall>item \<in> set items. searchLoop item others m False = Inr True)"
proof (induction items)
  case Nil
  show ?case by simp
next
  case (Cons item items)
  show ?case
  proof (cases "searchLoop item others m False")
    case (Inl p)
    then show ?thesis by simp
  next
    case (Inr found)
    then show ?thesis using Cons.IH by (cases found) simp_all
  qed
qed

lemma itemsLoop_scalars:
  "\<forall>x \<in> set items. (\<forall>a. x \<noteq> JObject a) \<and> (\<forall>zs. x \<noteq> JArray zs) \<Longrightarrow>
     itemsLoop items others m = Inr (set items \<subseteq> set others)"
proof (induction items)
  case Nil
  show ?case by simp
next
  case (Cons item items)
  from Cons.prems have s: "searchLoop item others m False = Inr (False \<or> item \<in> set others)"
    by (intro searchLoop_scalar_value) simp_all
  from Cons have r: "itemsLoop items others m = Inr (set items \<subseteq> set others)" by simp
  show ?case by (cases "item \<in> set others") (simp_all add: s r)
qed

lemma searchLoop_object_one:
  "searchLoop (JObject a) [other] m False = Inr True \<longleftrightarrow>
     (\<exists>b. other = JObject b \<and> jsonStringMatches a b m = Inr True)"
proof (cases "\<exists>b. other = JObject b")
  case True
  then obtain b where b: "other = JObject b" ..
  show ?thesis unfolding b
    by (cases "jsonStringMatches a b m") (simp_all del: jsonStringMatches.simps)
next
  case False
  then have "typeName (JObject a) \<noteq> typeName other"
    by (simp only: typeName_JObject_eq) simp
  with False show ?thesis by (simp del: jsonStringMatches.simps)
qed

lemma searchLoop_object_value:
  assumes "\<forall>t m'. \<not> isl (jsonStringMatches a t m')"
  shows "searchLoop (JObject a) others m found =
           Inr (found \<or> (\<exists>b. JObject b \<in> set others \<and> jsonStringMatches a b m = Inr True))"
proof -
  have np: "\<forall>others m found. \<not> isl (searchLoop (JObject a) others m found)"
  proof (intro allI)
    fix others m found
    from assms have "\<not> isl (jsonStringMatches a t' m')" for t' m' by blast
    then show "\<not> isl (searchLoop (JObject a) others m found)"
      by (rule searchLoop_object_no_panic)
  qed
  have e: "(\<exists>other \<in> set others. searchLoop (JObject a) [other] m False = Inr True)
      = (\<exists>b. JObject b \<in> set others \<and> jsonStringMatches a b m = Inr True)"
    by (simp only: searchLoop_object_one) blast
  show ?thesis
    unfolding e [symmetric] by (rule searchLoop_value [OF np])
qed

section \<open>The claims\<close>

text \<open>
  Claim C1, as stated: whenever some key of the pattern maps to a nested object, the
  target maps the same key to a nested object and the recursive comparison of the two
  nested objects succeeds, \<^verbatim>\<open>jsonStringMatches\<close> returns no verdict. It does return one
  when control never reaches that key. With \<^verbatim>\<open>mustBeEqual\<close> set, pattern
  \<^verbatim>\<open>{"u":{}}\<close> and target \<^verbatim>\<open>{"u":{},"b":1}\<close> differ in their number of fields and
  the guard in front of the loop returns \<^verbatim>\<open>false\<close>. Without it, pattern
  \<^verbatim>\<open>{"a":1,"u":{}}\<close> against \<^verbatim>\<open>{"a":2,"u":{}}\<close> returns \<^verbatim>\<open>false\<close> when the range
  visits \<^verbatim>\<open>"a"\<close> first.
\<close>

theorem nested_object_returns_false:
  "map_of [(''u'', JObject [])] ''u'' = Some (JObject [])
   \<and> map_of [(''u'', JObject []), (''b'', JNumber 1)] ''u'' = Some (JObject [])
   \<and> jsonStringMatches [] [] True = Inr True
   \<and> jsonStringMatches [(''u'', JObject [])] [(''u'', JObject []), (''b'', JNumber 1)] True
       = Inr False
   \<and> jsonStringMatches [] [] False = Inr True
   \<and> jsonStringMatches [(''a'', JNumber 1), (''u'', JObject [])]
         [(''a'', JNumber 2), (''u'', JObject [])] False
       = Inr False"
  by simp

text \<open>
  Claim C1, amended. Let the pattern hold an entry \<open>(k, JObject a)\<close>, visited after the
  entries \<open>pre\<close> and before the entries \<open>post\<close>, let the target map \<open>k\<close> to an
  object \<open>b\<close>, and let the recursive comparison of \<open>a\<close> and \<open>b\<close> return
  \<^verbatim>\<open>true\<close>. Then the call returns \<^verbatim>\<open>false\<close> if the field-count guard fires, it ends
  as the loop over \<open>pre\<close> ends if that loop returns \<^verbatim>\<open>false\<close> or panics, and in every
  other case it panics at \<^verbatim>\<open>value != otherValue\<close> with "comparing uncomparable type
  map[string]interface {}". In no case does it return \<^verbatim>\<open>true\<close>.
\<close>

theorem nested_object_entry_panics:
  assumes "map_of t k = Some (JObject b)" and "jsonStringMatches a b m = Inr True"
  shows "jsonStringMatches (pre @ (k, JObject a) # post) t m =
           (if m \<and> length (pre @ (k, JObject a) # post) \<noteq> length t then Inr False
            else if fieldsLoop pre t m = Inr True
                 then Inl (Uncomparable ''map[string]interface {}'')
                 else fieldsLoop pre t m)
         \<and> jsonStringMatches (pre @ (k, JObject a) # post) t m \<noteq> Inr True"
proof -
  have e: "fieldsLoop ((k, JObject a) # post) t m = Inl (Uncomparable ''map[string]interface {}'')"
    using assms by (rule fieldsLoop_object_entry)
  have l: "fieldsLoop (pre @ (k, JObject a) # post) t m =
      (if fieldsLoop pre t m = Inr True then Inl (Uncomparable ''map[string]interface {}'')
       else fieldsLoop pre t m)"
    by (simp only: fieldsLoop_append [of pre "(k, JObject a) # post"] e)
  show ?thesis
    by (simp only: jsonStringMatches.simps l) simp
qed

text \<open>
  The scenario "nested object subset" of the specification, with one more field in front:
  the nested objects match, and the call panics.
\<close>

theorem nested_object_entry_panics_witness:
  "jsonStringMatches [(''id'', JNumber 5), (''user'', JObject [(''id'', JNumber 1)])]
     [(''id'', JNumber 5), (''user'', JObject [(''id'', JNumber 1), (''active'', JBool True)])] False
   = Inl (Uncomparable ''map[string]interface {}'')
   \<and> map_of [(''id'', JNumber 5), (''user'', JObject [(''id'', JNumber 1), (''active'', JBool True)])] ''user''
       = Some (JObject [(''id'', JNumber 1), (''active'', JBool True)])
   \<and> jsonStringMatches [(''id'', JNumber 1)] [(''id'', JNumber 1), (''active'', JBool True)] False = Inr True"
  using nested_object_entry_panics [of "[(''id'', JNumber 5), (''user'', JObject [(''id'', JNumber 1), (''active'', JBool True)])]"
      "''user''" "[(''id'', JNumber 1), (''active'', JBool True)]" "[(''id'', JNumber 1)]" False
      "[(''id'', JNumber 5)]" "[]"]
  by simp

text \<open>
  Claim C2, as stated: text that is not valid JSON makes the parse step raise an error to
  the caller, the comparator is not invoked, and \<^verbatim>\<open>Matches\<close> and \<^verbatim>\<open>Equals\<close> never
  produce a verdict when an operand failed to parse. The two texts \<^verbatim>\<open>not json\<close> and
  \<^verbatim>\<open>{\<close> are both syntactically invalid; on such input \<^verbatim>\<open>json.Unmarshal\<close> returns a
  syntax error and leaves the destination map nil, which is what the decoder used here does
  on these two texts. Both methods return \<^verbatim>\<open>true\<close>, and \<^verbatim>\<open>UnmarshalJSON\<close> returns a
  nil error although compaction failed.
\<close>

theorem parse_failure_yields_verdict:
  "fst ((\<lambda>data. (Some SyntaxError, [])) ''not json'') = Some SyntaxError
   \<and> Matches (\<lambda>data. (Some SyntaxError, [])) ''not json'' ''{'' = Inr True
   \<and> Equals (\<lambda>data. (Some SyntaxError, [])) ''not json'' ''{'' = Inr True
   \<and> snd (snd (UnmarshalJSON (\<lambda>data. (Some SyntaxError, [])) ''not json'')) = None"
  by (simp add: Matches_def Equals_def UnmarshalJSON_def)

text \<open>
  Claim C2, amended. A parse failure is not reported by these methods.
  \<^verbatim>\<open>UnmarshalJSON\<close> returns a nil error on every input (a compaction error is only
  logged). \<^verbatim>\<open>Matches\<close> and \<^verbatim>\<open>Equals\<close> drop the decoder's error and always run the
  comparator on the maps the decoder left. When decoding the receiver fails and leaves its
  map nil, \<^verbatim>\<open>Matches\<close> returns \<^verbatim>\<open>true\<close> and \<^verbatim>\<open>Equals\<close> returns whether the other map
  is empty; when decoding the argument fails and leaves its map nil, both return whether the
  receiver's map is empty.
\<close>

theorem parse_failure_not_surfaced:
  "snd (snd (UnmarshalJSON jsonCompact data)) = None
   \<and> Matches jsonUnmarshal j other
       = jsonStringMatches (snd (jsonUnmarshal j)) (snd (jsonUnmarshal other)) False
   \<and> Equals jsonUnmarshal j other
       = jsonStringMatches (snd (jsonUnmarshal j)) (snd (jsonUnmarshal other)) True
   \<and> (jsonUnmarshal j = (Some e, []) \<longrightarrow>
        Matches jsonUnmarshal j other = Inr True
        \<and> Equals jsonUnmarshal j other = Inr (snd (jsonUnmarshal other) = []))
   \<and> (jsonUnmarshal other = (Some e, []) \<longrightarrow>
        Matches jsonUnmarshal j other = Inr (snd (jsonUnmarshal j) = [])
        \<and> Equals jsonUnmarshal j other = Inr (snd (jsonUnmarshal j) = []))"
proof (intro conjI impI)
  show "snd (snd (UnmarshalJSON jsonCompact data)) = None"
    by (simp add: UnmarshalJSON_def split: prod.splits)
next
  show "Matches jsonUnmarshal j other
       = jsonStringMatches (snd (jsonUnmarshal j)) (snd (jsonUnmarshal other)) False"
    by (simp only: Matches_def Let_def)
next
  show "Equals jsonUnmarshal j other
       = jsonStringMatches (snd (jsonUnmarshal j)) (snd (jsonUnmarshal other)) True"
    by (simp only: Equals_def Let_def)
next
  assume "jsonUnmarshal j = (Some e, [])"
  then show "Matches jsonUnmarshal j other = Inr True"
    and "Equals jsonUnmarshal j other = Inr (snd (jsonUnmarshal other) = [])"
    by (simp_all add: Matches_def Equals_def Let_def)
next
  assume "jsonUnmarshal other = (Some e, [])"
  then show "Matches jsonUnmarshal j other = Inr (snd (jsonUnmarshal j) = [])"
    and "Equals jsonUnmarshal j other = Inr (snd (jsonUnmarshal j) = [])"
    by (simp_all add: Matches_def Equals_def Let_def fieldsLoop_empty_target)
qed

text \<open>
  A decoder that accepts \<^verbatim>\<open>{}\<close> and rejects everything else, at the invalid text
  \<^verbatim>\<open>{\<close>.
\<close>

theorem parse_failure_not_surfaced_witness:
  "(\<lambda>data. if data = ''{}'' then (None, []) else (Some SyntaxError, [])) ''{'' = (Some SyntaxError, [])
   \<and> Matches (\<lambda>data. if data = ''{}'' then (None, []) else (Some SyntaxError, [])) ''{'' ''{}'' = Inr True
   \<and> Equals (\<lambda>data. if data = ''{}'' then (None, []) else (Some SyntaxError, [])) ''{'' ''{}'' = Inr True
   \<and> Matches (\<lambda>data. if data = ''{}'' then (None, []) else (Some SyntaxError, [])) ''{}'' ''{'' = Inr True"
  using parse_failure_not_surfaced [where jsonUnmarshal = "\<lambda>data. if data = ''{}'' then (None, []) else (Some SyntaxError, [])"
      and j = "''{''" and other = "''{}''" and e = SyntaxError]
    parse_failure_not_surfaced [where jsonUnmarshal = "\<lambda>data. if data = ''{}'' then (None, []) else (Some SyntaxError, [])"
      and j = "''{}''" and other = "''{''" and e = SyntaxError]
  by simp

text \<open>
  Claim C3. The inner search never removes a matched element of \<^verbatim>\<open>otherItems\<close>.
  Pattern \<^verbatim>\<open>{"k":[1,1]}\<close> against target \<^verbatim>\<open>{"k":[1,2]}\<close> returns \<^verbatim>\<open>true\<close> with
  \<^verbatim>\<open>mustBeEqual\<close> false (\<^verbatim>\<open>Matches\<close>) and true (\<^verbatim>\<open>Equals\<close>), while
  \<^verbatim>\<open>{"k":[1,3]}\<close> against the same target returns \<^verbatim>\<open>false\<close>; and the one target
  element \<^verbatim>\<open>{"a":1,"b":2}\<close> serves the two different pattern elements \<^verbatim>\<open>{"a":1}\<close> and
  \<^verbatim>\<open>{"b":2}\<close>. In general:
  \<^item> an item that is found once in \<^verbatim>\<open>otherItems\<close> is found there any number of times;
  \<^item> the loop over \<^verbatim>\<open>items\<close> returns \<^verbatim>\<open>true\<close> exactly when the search for every item,
    each time over the whole of \<^verbatim>\<open>otherItems\<close>, ends with \<^verbatim>\<open>found\<close> set;
  \<^item> the search for an item that is neither an object nor an array ends with \<^verbatim>\<open>found\<close>
    set exactly when the item occurs in \<^verbatim>\<open>otherItems\<close>, so that for such items, and
    for numbers in particular, the loop decides whether the set of the items is included in
    the set of the other items, whatever the multiplicities;
  \<^item> the search for an object that never panics ends with \<^verbatim>\<open>found\<close> set exactly when
    some object of \<^verbatim>\<open>otherItems\<close> matches it.
\<close>

theorem array_candidates_not_consumed:
  "jsonStringMatches [(''k'', JArray [JNumber 1, JNumber 1])]
      [(''k'', JArray [JNumber 1, JNumber 2])] False = Inr True
   \<and> jsonStringMatches [(''k'', JArray [JNumber 1, JNumber 1])]
      [(''k'', JArray [JNumber 1, JNumber 2])] True = Inr True
   \<and> jsonStringMatches [(''k'', JArray [JNumber 1, JNumber 3])]
      [(''k'', JArray [JNumber 1, JNumber 2])] False = Inr False
   \<and> jsonStringMatches
        [(''k'', JArray [JObject [(''a'', JNumber 1)], JObject [(''b'', JNumber 2)]])]
        [(''k'', JArray [JObject [(''a'', JNumber 1), (''b'', JNumber 2)],
                         JObject [(''c'', JNumber 3)]])] False = Inr True
   \<and> (searchLoop item otherItems m False = Inr True \<longrightarrow>
        itemsLoop (replicate n item) otherItems m = Inr True)
   \<and> (itemsLoop items otherItems m = Inr True \<longleftrightarrow>
        (\<forall>x \<in> set items. searchLoop x otherItems m False = Inr True))
   \<and> ((\<forall>a. item \<noteq> JObject a) \<and> (\<forall>zs. item \<noteq> JArray zs) \<longrightarrow>
        searchLoop item otherItems m found = Inr (found \<or> item \<in> set otherItems))
   \<and> ((\<forall>x \<in> set items. (\<forall>a. x \<noteq> JObject a) \<and> (\<forall>zs. x \<noteq> JArray zs)) \<longrightarrow>
        itemsLoop items otherItems m = Inr (set items \<subseteq> set otherItems))
   \<and> itemsLoop (map JNumber xs) (map JNumber ys) m = Inr (set xs \<subseteq> set ys)
   \<and> ((\<forall>t m'. \<not> isl (jsonStringMatches a t m')) \<longrightarrow>
        searchLoop (JObject a) otherItems m found =
          Inr (found \<or> (\<exists>b. JObject b \<in> set otherItems \<and> jsonStringMatches a b m = Inr True)))"
proof (intro conjI impI)
  show "jsonStringMatches [(''k'', JArray [JNumber 1, JNumber 1])]
      [(''k'', JArray [JNumber 1, JNumber 2])] False = Inr True"
    by simp
next
  show "jsonStringMatches [(''k'', JArray [JNumber 1, JNumber 1])]
      [(''k'', JArray [JNumber 1, JNumber 2])] True = Inr True"
    by simp
next
  show "jsonStringMatches [(''k'', JArray [JNumber 1, JNumber 3])]
      [(''k'', JArray [JNumber 1, JNumber 2])] False = Inr False"
    by simp
next
  show "jsonStringMatches
        [(''k'', JArray [JObject [(''a'', JNumber 1)], JObject [(''b'', JNumber 2)]])]
        [(''k'', JArray [JObject [(''a'', JNumber 1), (''b'', JNumber 2)],
                         JObject [(''c'', JNumber 3)]])] False = Inr True"
    by simp
next
  assume "searchLoop item otherItems m False = Inr True"
  then show "itemsLoop (replicate n item) otherItems m = Inr True"
    by (induction n) simp_all
next
  show "itemsLoop items otherItems m = Inr True \<longleftrightarrow>
        (\<forall>x \<in> set items. searchLoop x otherItems m False = Inr True)"
    by (rule itemsLoop_all)
next
  assume "(\<forall>a. item \<noteq> JObject a) \<and> (\<forall>zs. item \<noteq> JArray zs)"
  then show "searchLoop item otherItems m found = Inr (found \<or> item \<in> set otherItems)"
    by (intro searchLoop_scalar_value) blast+
next
  assume "\<forall>x \<in> set items. (\<forall>a. x \<noteq> JObject a) \<and> (\<forall>zs. x \<noteq> JArray zs)"
  then show "itemsLoop items otherItems m = Inr (set items \<subseteq> set otherItems)"
    by (rule itemsLoop_scalars)
next
  have inj: "(set (map JNumber xs) \<subseteq> set (map JNumber ys)) = (set xs \<subseteq> set ys)"
    by auto
  have "itemsLoop (map JNumber xs) (map JNumber ys) m
      = Inr (set (map JNumber xs) \<subseteq> set (map JNumber ys))"
    by (rule itemsLoop_scalars) auto
  then show "itemsLoop (map JNumber xs) (map JNumber ys) m = Inr (set xs \<subseteq> set ys)"
    by (simp only: inj)
next
  assume "\<forall>t m'. \<not> isl (jsonStringMatches a t m')"
  then show "searchLoop (JObject a) otherItems m found =
          Inr (found \<or> (\<exists>b. JObject b \<in> set otherItems \<and> jsonStringMatches a b m = Inr True))"
    by (rule searchLoop_object_value)
qed

text \<open>
  The numbers \<^verbatim>\<open>[1,1]\<close> and \<^verbatim>\<open>[1,3]\<close> against \<^verbatim>\<open>[1,2]\<close>, and the object
  \<^verbatim>\<open>{"a":1}\<close> against two arrays of objects.
\<close>

theorem array_candidates_not_consumed_witness:
  "searchLoop (JNumber 1) [JNumber 1, JNumber 2] False False = Inr True
   \<and> itemsLoop (replicate 2 (JNumber 1)) [JNumber 1, JNumber 2] False = Inr True
   \<and> itemsLoop [JNumber 1, JNumber 1] [JNumber 1, JNumber 2] False = Inr True
   \<and> itemsLoop [JNumber 1, JNumber 3] [JNumber 1, JNumber 2] False = Inr False
   \<and> (\<forall>t m'. \<not> isl (jsonStringMatches [(''a'', JNumber 1)] t m'))
   \<and> searchLoop (JObject [(''a'', JNumber 1)])
        [JObject [(''c'', JNumber 3)], JObject [(''a'', JNumber 1), (''b'', JNumber 2)]]
        False False = Inr True
   \<and> searchLoop (JObject [(''a'', JNumber 1)])
        [JObject [(''c'', JNumber 3)], JObject [(''a'', JNumber 2)]]
        False False = Inr False"
proof -
  have np: "\<forall>t m'. \<not> isl (jsonStringMatches [(''a'', JNumber 1)] t m')"
    by (auto split: option.splits)
  note s1 = array_candidates_not_consumed [where item = "JNumber 1" and otherItems = "[JNumber 1, JNumber 2]"
      and m = False and n = 2 and found = False and items = "[JNumber 1, JNumber 1]"
      and xs = "[1, 3]" and ys = "[1, 2]" and a = "[(''a'', JNumber 1)]"]
  note s2 = array_candidates_not_consumed [where item = "JNumber 1"
      and otherItems = "[JObject [(''c'', JNumber 3)], JObject [(''a'', JNumber 1), (''b'', JNumber 2)]]"
      and m = False and n = 2 and found = False and items = "[JNumber 1, JNumber 3]"
      and xs = "[1, 3]" and ys = "[1, 2]" and a = "[(''a'', JNumber 1)]"]
  note s3 = array_candidates_not_consumed [where item = "JNumber 1"
      and otherItems = "[JObject [(''c'', JNumber 3)], JObject [(''a'', JNumber 2)]]"
      and m = False and n = 2 and found = False and items = "[JNumber 1, JNumber 3]"
      and xs = "[1, 3]" and ys = "[1, 2]" and a = "[(''a'', JNumber 1)]"]
  from np s1 s2 s3 show ?thesis by simp
qed

text \<open>
  Claim C4 (reflexivity of \<^verbatim>\<open>Equals\<close>) fails on the code: comparing \<^verbatim>\<open>{"u":{}}\<close>
  with itself under \<^verbatim>\<open>mustBeEqual\<close> panics. The object case of the \<^verbatim>\<open>switch\<close> lacks the
  \<^verbatim>\<open>continue\<close> that the array case has, so the two maps reach \<^verbatim>\<open>value != otherValue\<close>.
\<close>

theorem Equals_self_nested_object_panics:
  "jsonStringMatches [(''u'', JObject [])] [(''u'', JObject [])] True
     = Inl (Uncomparable ''map[string]interface {}'')"
  by simp

text \<open>
  Claim C5. Let the target map \<open>k\<close> to an array \<open>ys\<close>. In both modes the loop
  returns \<^verbatim>\<open>false\<close> at a pattern entry for \<open>k\<close> that holds an array of another length.
  And when the pattern has an array at \<open>k\<close> and the call returned \<^verbatim>\<open>true\<close>, appending
  any element \<open>e\<close> to the target's array turns the result into \<^verbatim>\<open>false\<close>.
\<close>

theorem array_length_sensitivity:
  assumes "map_of t k = Some (JArray ys)"
  shows "(length xs \<noteq> length ys \<longrightarrow> fieldsLoop ((k, JArray xs) # rest) t m = Inr False)
       \<and> ((k, JArray xs') \<in> set p \<and> jsonStringMatches p t m = Inr True \<longrightarrow>
            jsonStringMatches p (AList.update k (JArray (ys @ [e])) t) m = Inr False)"
proof (intro conjI impI)
  assume "length xs \<noteq> length ys"
  then show "fieldsLoop ((k, JArray xs) # rest) t m = Inr False"
    using assms by simp
next
  assume h: "(k, JArray xs') \<in> set p \<and> jsonStringMatches p t m = Inr True"
  let ?t' = "AList.update k (JArray (ys @ [e])) t"
  from assms have kt: "k \<in> fst ` set t"
    by (metis domI dom_map_of_conv_image_fst)
  have len: "length ?t' = length t" using kt by (rule length_update_present)
  from h have gate: "\<not> (m \<and> length p \<noteq> length t)" and loop: "fieldsLoop p t m = Inr True"
    by (auto split: if_splits)
  from h have kp: "k \<in> fst ` set p" by force
  have "fieldsLoop p ?t' m = Inr False"
    using loop kp assms
  proof (rule fieldsLoop_array_grown)
    show "map_of ?t' = (map_of t)(k \<mapsto> JArray (ys @ [e]))" by (rule update_conv')
    show "length (ys @ [e]) \<noteq> length ys" by simp
  qed
  then show "jsonStringMatches p ?t' m = Inr False"
    using gate by (simp add: len)
qed

text \<open>
  The scenario "array multiset match" of the specification, in strict mode.
\<close>

theorem array_length_sensitivity_witness:
  "map_of [(''tags'', JArray [JString ''b'', JString ''a''])] ''tags'' = Some (JArray [JString ''b'', JString ''a''])
   \<and> fieldsLoop [(''tags'', JArray [JString ''a''])] [(''tags'', JArray [JString ''b'', JString ''a''])] True = Inr False
   \<and> jsonStringMatches [(''tags'', JArray [JString ''a'', JString ''b''])]
        [(''tags'', JArray [JString ''b'', JString ''a''])] True = Inr True
   \<and> jsonStringMatches [(''tags'', JArray [JString ''a'', JString ''b''])]
        (AList.update ''tags'' (JArray ([JString ''b'', JString ''a''] @ [JString ''a'']))
           [(''tags'', JArray [JString ''b'', JString ''a''])]) True = Inr False"
  using array_length_sensitivity [of "[(''tags'', JArray [JString ''b'', JString ''a''])]" "''tags''"
      "[JString ''b'', JString ''a'']" "[JString ''a'']" "[]" True "[JString ''a'', JString ''b'']"
      "[(''tags'', JArray [JString ''a'', JString ''b''])]" "JString ''a''"]
  by simp

text \<open>
  Claim C6. With \<^verbatim>\<open>mustBeEqual\<close> set, objects with different numbers of fields give
  \<^verbatim>\<open>false\<close> at once; without it the call is the loop alone. Adding to the target a key
  \<open>k\<close> that the pattern does not have leaves the result of the loose comparison as it
  was (verdict or panic), and, when the key is new to the target and the field counts
  agreed before, makes the strict comparison \<^verbatim>\<open>false\<close>.
\<close>

theorem field_count_gate:
  "(length p \<noteq> length t \<longrightarrow> jsonStringMatches p t True = Inr False)
   \<and> jsonStringMatches p t False = fieldsLoop p t False
   \<and> (k \<notin> fst ` set p \<longrightarrow>
        jsonStringMatches p (AList.update k v t) False = jsonStringMatches p t False)
   \<and> (k \<notin> fst ` set p \<and> k \<notin> fst ` set t \<and> length p = length t \<longrightarrow>
        jsonStringMatches p (AList.update k v t) True = Inr False)"
proof (intro conjI impI)
  show "jsonStringMatches p t False = fieldsLoop p t False" by simp
next
  assume "length p \<noteq> length t"
  then show "jsonStringMatches p t True = Inr False" by simp
next
  assume k: "k \<notin> fst ` set p"
  have "fieldsLoop p (AList.update k v t) False = fieldsLoop p t False"
  proof (rule fieldsLoop_cong_keys)
    fix key assume "key \<in> fst ` set p"
    with k have "key \<noteq> k" by auto
    then show "map_of (AList.update k v t) key = map_of t key"
      by (simp add: update_conv')
  qed
  then show "jsonStringMatches p (AList.update k v t) False = jsonStringMatches p t False"
    by simp
next
  assume h: "k \<notin> fst ` set p \<and> k \<notin> fst ` set t \<and> length p = length t"
  then have "length (AList.update k v t) = Suc (length t)"
    by (simp add: length_update_absent)
  with h show "jsonStringMatches p (AList.update k v t) True = Inr False" by simp
qed

text \<open>
  The scenario "loose match with extra field" of the specification.
\<close>

theorem field_count_gate_witness:
  "jsonStringMatches [(''id'', JNumber 5)] (AList.update ''name'' (JString ''x'') [(''id'', JNumber 5)]) False
     = jsonStringMatches [(''id'', JNumber 5)] [(''id'', JNumber 5)] False
   \<and> jsonStringMatches [(''id'', JNumber 5)] [(''id'', JNumber 5)] False = Inr True
   \<and> jsonStringMatches [(''id'', JNumber 5)] (AList.update ''name'' (JString ''x'') [(''id'', JNumber 5)]) True
     = Inr False
   \<and> jsonStringMatches [(''id'', JNumber 5)] [] True = Inr False"
  using field_count_gate [of "[(''id'', JNumber 5)]" "[(''id'', JNumber 5)]" "''name''" "JString ''x''"]
    field_count_gate [of "[(''id'', JNumber 5)]" "[]" "''name''" "JString ''x''"]
  by simp

text \<open>
  Claim C7 (array order independence) fails on the code, already for the identity
  permutation: an array holding an object that has a nested object, and an array holding an
  array, each matched against itself, panic. The first is the missing \<^verbatim>\<open>continue\<close> of
  the object case, the second the \<^verbatim>\<open>default\<close> case \<^verbatim>\<open>item == otherItem\<close> applied to
  two slices.
\<close>

theorem array_of_nested_values_panics:
  "jsonStringMatches [(''k'', JArray [JObject [(''u'', JObject [])]])]
      [(''k'', JArray [JObject [(''u'', JObject [])]])] False
     = Inl (Uncomparable ''map[string]interface {}'')
   \<and> jsonStringMatches [(''k'', JArray [JArray [JNumber 1]])]
      [(''k'', JArray [JArray [JNumber 1]])] False
     = Inl (Uncomparable ''[]interface {}'')"
  by simp

text \<open>
  Claim C8. If the strict comparison of \<open>p\<close> and \<open>t\<close> returns \<^verbatim>\<open>true\<close>, so does
  the loose one, in the same visiting order and in every other one: the loose comparison
  of \<open>p'\<close> and \<open>t'\<close> returns \<^verbatim>\<open>true\<close> whenever these are \<open>p\<close> and \<open>t\<close> with
  the entries of their maps listed in another order.
\<close>

theorem strict_implies_subset:
  assumes "jsonStringMatches p t True = Inr True"
  shows "jsonStringMatches p t False = Inr True
     \<and> (reordered (JObject p) (JObject p') \<and> reordered (JObject t) (JObject t') \<longrightarrow>
          jsonStringMatches p' t' False = Inr True)"
proof (intro conjI impI)
  from assms show l: "jsonStringMatches p t False = Inr True"
    by (rule strict_true_subset_true(1) [of True, OF TrueI])
  assume "reordered (JObject p) (JObject p') \<and> reordered (JObject t) (JObject t')"
  then show "jsonStringMatches p' t' False = Inr True"
    using true_reordered(1) [OF l] by blast
qed

text \<open>
  Two objects that agree up to the order of their fields and array elements, and the
  same two objects with their fields listed the other way round.
\<close>

theorem strict_implies_subset_witness:
  "jsonStringMatches [(''tags'', JArray [JString ''a'', JString ''b'']), (''id'', JNumber 5)]
      [(''id'', JNumber 5), (''tags'', JArray [JString ''b'', JString ''a''])] True = Inr True
   \<and> reordered (JObject [(''tags'', JArray [JString ''a'', JString ''b'']), (''id'', JNumber 5)])
       (JObject [(''id'', JNumber 5), (''tags'', JArray [JString ''a'', JString ''b''])])
   \<and> reordered (JObject [(''id'', JNumber 5), (''tags'', JArray [JString ''b'', JString ''a''])])
       (JObject [(''tags'', JArray [JString ''b'', JString ''a'']), (''id'', JNumber 5)])
   \<and> jsonStringMatches [(''tags'', JArray [JString ''a'', JString ''b'']), (''id'', JNumber 5)]
      [(''id'', JNumber 5), (''tags'', JArray [JString ''b'', JString ''a''])] False = Inr True
   \<and> jsonStringMatches [(''id'', JNumber 5), (''tags'', JArray [JString ''a'', JString ''b''])]
      [(''tags'', JArray [JString ''b'', JString ''a'']), (''id'', JNumber 5)] False = Inr True"
  using strict_implies_subset [of "[(''tags'', JArray [JString ''a'', JString ''b'']), (''id'', JNumber 5)]"
      "[(''id'', JNumber 5), (''tags'', JArray [JString ''b'', JString ''a''])]"
      "[(''id'', JNumber 5), (''tags'', JArray [JString ''a'', JString ''b''])]"
      "[(''tags'', JArray [JString ''b'', JString ''a'']), (''id'', JNumber 5)]"]
  by simp

text \<open>
  Claim C9 (a pattern key absent from the target gives \<^verbatim>\<open>false\<close> in both modes) fails on
  the code when the range visits a nested object before the absent key: the call panics
  there and never reaches the lookup that would return \<^verbatim>\<open>false\<close>. The pattern
  \<^verbatim>\<open>{"u":{},"x":1}\<close> against \<^verbatim>\<open>{"u":{}}\<close> (loose) and against \<^verbatim>\<open>{"u":{},"y":1}\<close>
  (strict) panics in the order \<^verbatim>\<open>u, x\<close>; in the order \<^verbatim>\<open>x, u\<close> it returns
  \<^verbatim>\<open>false\<close>.
\<close>

theorem missing_field_behind_object_panics:
  "map_of [(''u'', JObject [])] ''x'' = None
   \<and> jsonStringMatches [(''u'', JObject []), (''x'', JNumber 1)] [(''u'', JObject [])] False
     = Inl (Uncomparable ''map[string]interface {}'')
   \<and> map_of [(''u'', JObject []), (''y'', JNumber 1)] ''x'' = None
   \<and> jsonStringMatches [(''u'', JObject []), (''x'', JNumber 1)]
        [(''u'', JObject []), (''y'', JNumber 1)] True
     = Inl (Uncomparable ''map[string]interface {}'')
   \<and> jsonStringMatches [(''x'', JNumber 1), (''u'', JObject [])] [(''u'', JObject [])] False
     = Inr False"
  by simp

text \<open>
  Claim C10. \<^verbatim>\<open>MarshalJSON\<close> never returns an error; it returns \<^verbatim>\<open>{}\<close> for the
  empty string and the string itself otherwise.
\<close>

theorem MarshalJSON_total:
  "snd (MarshalJSON j) = None
   \<and> (j = [] \<longrightarrow> fst (MarshalJSON j) = ''{}'')
   \<and> (j \<noteq> [] \<longrightarrow> fst (MarshalJSON j) = j)"
  by (simp add: MarshalJSON_def)

text \<open>
  The empty string and a non-empty one.
\<close>

theorem MarshalJSON_total_witness:
  "fst (MarshalJSON []) = ''{}'' \<and> fst (MarshalJSON ''[1,2]'') = ''[1,2]''
   \<and> snd (MarshalJSON []) = None"
  using MarshalJSON_total [of "[]"] MarshalJSON_total [of "''[1,2]''"]
  by simp

end
